theory Spec2Isabelle
  imports Main "HOL-Library.Word" "HOL-Library.List_Lexorder" "HOL-Library.Multiset"
begin

unbundle bit_operations_syntax

section \<open>Python values used by the ledger\<close>

text \<open>
  A Python \<^verbatim>\<open>str\<close> is a sequence of Unicode code points; it is modelled as a list of
  natural numbers, ordered lexicographically by code point as Python orders strings.
  \<open>lit\<close> turns an ASCII literal into such a string.
\<close>

type_synonym pystr = "nat list"

definition lit :: "string \<Rightarrow> pystr" where
  "lit s = map of_char s"

text \<open>\<^verbatim>\<open>str(n)\<close> for an integer: decimal digits, with a minus sign when negative.\<close>

fun digits10 :: "nat \<Rightarrow> pystr" where
  "digits10 n = (if n < 10 then [48 + n] else digits10 (n div 10) @ [48 + n mod 10])"

declare digits10.simps [simp del]

definition str_int :: "int \<Rightarrow> pystr" where
  "str_int i = (if i < 0 then 45 # digits10 (nat (- i)) else digits10 (nat i))"

text \<open>\<^verbatim>\<open>"%0wd" % n\<close> for a natural number and \<^verbatim>\<open>"%0kx" % n\<close> (lowercase hexadecimal).\<close>

definition zfill :: "nat \<Rightarrow> pystr \<Rightarrow> pystr" where
  "zfill w s = replicate (w - length s) 48 @ s"

definition hexdigit :: "nat \<Rightarrow> nat" where
  "hexdigit d = (if d < 10 then 48 + d else 87 + d)"

definition hex_fixed :: "nat \<Rightarrow> nat \<Rightarrow> pystr" where
  "hex_fixed k n = map (\<lambda>i. hexdigit ((n div 16 ^ i) mod 16)) (rev [0..<k])"

text \<open>
  \<^verbatim>\<open>uuid.UUID\<close>: a 128-bit value; \<^verbatim>\<open>str(u)\<close> prints its 32 hexadecimal digits in the
  groups 8-4-4-4-12.
\<close>

type_synonym uuid = "128 word"

definition str_uuid :: "uuid \<Rightarrow> pystr" where
  "str_uuid u =
     (let h = hex_fixed 32 (unat u)
      in take 8 h @ [45] @ take 4 (drop 8 h) @ [45] @ take 4 (drop 12 h) @ [45]
         @ take 4 (drop 16 h) @ [45] @ drop 20 h)"

text \<open>
  \<^verbatim>\<open>datetime\<close>, timezone-aware as every timestamp of the ledger is
  (\<^verbatim>\<open>datetime.now(timezone.utc)\<close>, a \<^verbatim>\<open>DateTime(timezone=True)\<close> column); \<open>utcoffset\<close>
  is in minutes. \<open>isoformat\<close> is \<^verbatim>\<open>datetime.isoformat()\<close>: the fraction is printed only
  when the microseconds are not zero.
\<close>

record datetime =
  year :: nat
  month :: nat
  day :: nat
  hour :: nat
  minute :: nat
  second :: nat
  microsecond :: nat
  utcoffset :: int

definition format_offset :: "int \<Rightarrow> pystr" where
  "format_offset off =
     (if off < 0 then [45] else [43])
     @ zfill 2 (digits10 (nat \<bar>off\<bar> div 60)) @ [58] @ zfill 2 (digits10 (nat \<bar>off\<bar> mod 60))"

definition isoformat :: "datetime \<Rightarrow> pystr" where
  "isoformat d =
     zfill 4 (digits10 (year d)) @ [45] @ zfill 2 (digits10 (month d)) @ [45]
     @ zfill 2 (digits10 (day d)) @ [84]
     @ zfill 2 (digits10 (hour d)) @ [58] @ zfill 2 (digits10 (minute d)) @ [58]
     @ zfill 2 (digits10 (second d))
     @ (if microsecond d \<noteq> 0 then [46] @ zfill 6 (digits10 (microsecond d)) else [])
     @ format_offset (utcoffset d)"

section \<open>Canonical JSON: \<^verbatim>\<open>json.dumps(_, sort_keys=True, default=str)\<close>\<close>

text \<open>
  The content of an entry is a JSON value (the column is \<^verbatim>\<open>JSONB\<close>): null, booleans,
  integers, strings, lists and dicts with string keys. A dict is an association list in
  insertion order, as a Python dict iterates. Floats are left out.
\<close>

datatype json =
    JNull
  | JBool bool
  | JInt int
  | JStr pystr
  | JList "json list"
  | JDict "(pystr \<times> json) list"

text \<open>
  String escaping with \<^verbatim>\<open>ensure_ascii=True\<close> (the default): backslash, double quote and
  the five short escapes, printable ASCII as it is, everything else as \<^verbatim>\<open>\uXXXX\<close>, code
  points beyond the basic plane as a surrogate pair.
\<close>

definition u_escape :: "nat \<Rightarrow> pystr" where
  "u_escape n = [92, 117] @ hex_fixed 4 n"

definition escape_char :: "nat \<Rightarrow> pystr" where
  "escape_char c =
     (if c = 92 then [92, 92]
      else if c = 34 then [92, 34]
      else if c = 8 then [92, 98]
      else if c = 12 then [92, 102]
      else if c = 10 then [92, 110]
      else if c = 13 then [92, 114]
      else if c = 9 then [92, 116]
      else if 32 \<le> c \<and> c \<le> 126 then [c]
      else if c < 65536 then u_escape c
      else u_escape (55296 OR (drop_bit 10 (c - 65536) AND 1023))
           @ u_escape (56320 OR ((c - 65536) AND 1023)))"

definition encode_str :: "pystr \<Rightarrow> pystr" where
  "encode_str s = [34] @ concat (map escape_char s) @ [34]"

fun join :: "pystr \<Rightarrow> pystr list \<Rightarrow> pystr" where
  "join sep [] = []"
| "join sep [x] = x"
| "join sep (x # y # ys) = x @ sep @ join sep (y # ys)"

text \<open>
  With \<^verbatim>\<open>sort_keys=True\<close> the encoder sorts the items of every dict, at every depth, by
  key before it writes them; the separators are the defaults \<^verbatim>\<open>", "\<close> and \<^verbatim>\<open>": "\<close>.
\<close>

function dumps :: "json \<Rightarrow> pystr" where
  "dumps JNull = lit ''null''"
| "dumps (JBool b) = (if b then lit ''true'' else lit ''false'')"
| "dumps (JInt i) = str_int i"
| "dumps (JStr s) = encode_str s"
| "dumps (JList xs) = [91] @ join (lit '', '') (map dumps xs) @ [93]"
| "dumps (JDict kvs) =
     [123] @ join (lit '', '')
       (map (\<lambda>kv. encode_str (fst kv) @ lit '': '' @ dumps (snd kv)) (sort_key fst kvs)) @ [125]"
  by pat_completeness auto

termination dumps
proof (relation "measure size")
  show "wf (measure size)" by simp
next
  fix xs :: "json list" and x
  assume "x \<in> set xs"
  then show "(x, JList xs) \<in> measure size"
    by (induction xs) auto
next
  fix kvs :: "(pystr \<times> json) list" and kv
  assume "kv \<in> set (sort_key fst kvs)"
  then have "kv \<in> set kvs" by simp
  then have "size (snd kv) < Suc (size_list (size_prod (\<lambda>_. 0) size) kvs)"
    by (induction kvs) (auto simp: less_Suc_eq_le)
  then show "(snd kv, JDict kvs) \<in> measure size" by simp
qed

section \<open>SHA-256\<close>

text \<open>
  \<^verbatim>\<open>hashlib.sha256(data).hexdigest()\<close> on a list of bytes, after FIPS 180-4. A 32-bit
  word is a natural number below \<open>2 ^ 32\<close>, with the wrap-around of addition written out.
\<close>

definition add32 :: "nat \<Rightarrow> nat \<Rightarrow> nat" where
  "add32 a b = (a + b) mod 4294967296"

definition rotr :: "nat \<Rightarrow> nat \<Rightarrow> nat" where
  "rotr n x = drop_bit n x OR push_bit (32 - n) (take_bit n x)"

definition sha_ch :: "nat \<Rightarrow> nat \<Rightarrow> nat \<Rightarrow> nat" where
  "sha_ch e f g = (e AND f) XOR ((4294967295 - e) AND g)"

definition sha_maj :: "nat \<Rightarrow> nat \<Rightarrow> nat \<Rightarrow> nat" where
  "sha_maj a b c = (a AND b) XOR (a AND c) XOR (b AND c)"

definition big_sigma0 :: "nat \<Rightarrow> nat" where
  "big_sigma0 x = rotr 2 x XOR rotr 13 x XOR rotr 22 x"

definition big_sigma1 :: "nat \<Rightarrow> nat" where
  "big_sigma1 x = rotr 6 x XOR rotr 11 x XOR rotr 25 x"

definition small_sigma0 :: "nat \<Rightarrow> nat" where
  "small_sigma0 x = rotr 7 x XOR rotr 18 x XOR drop_bit 3 x"

definition small_sigma1 :: "nat \<Rightarrow> nat" where
  "small_sigma1 x = rotr 17 x XOR rotr 19 x XOR drop_bit 10 x"

definition K256 :: "nat list" where
  "K256 =
    [1116352408, 1899447441, 3049323471, 3921009573, 961987163, 1508970993,
     2453635748, 2870763221, 3624381080, 310598401, 607225278, 1426881987,
     1925078388, 2162078206, 2614888103, 3248222580, 3835390401, 4022224774,
     264347078, 604807628, 770255983, 1249150122, 1555081692, 1996064986,
     2554220882, 2821834349, 2952996808, 3210313671, 3336571891, 3584528711,
     113926993, 338241895, 666307205, 773529912, 1294757372, 1396182291,
     1695183700, 1986661051, 2177026350, 2456956037, 2730485921, 2820302411,
     3259730800, 3345764771, 3516065817, 3600352804, 4094571909, 275423344,
     430227734, 506948616, 659060556, 883997877, 958139571, 1322822218,
     1537002063, 1747873779, 1955562222, 2024104815, 2227730452, 2361852424,
     2428436474, 2756734187, 3204031479, 3329325298]"

definition H256 :: "nat list" where
  "H256 =
    [1779033703, 3144134277, 1013904242, 2773480762,
     1359893119, 2600822924, 528734635, 1541459225]"

text \<open>
  The message schedule, most recent word first: from the sixteen words of a block (reversed)
  it adds \<open>n\<close> further words.
\<close>

fun schedule :: "nat \<Rightarrow> nat list \<Rightarrow> nat list" where
  "schedule 0 ws = ws"
| "schedule (Suc n) ws =
     schedule n
       (add32 (add32 (add32 (small_sigma1 (ws ! 1)) (ws ! 6)) (small_sigma0 (ws ! 14))) (ws ! 15) # ws)"

text \<open>One round on the working variables \<open>[a, b, c, d, e, f, g, h]\<close>.\<close>

definition sha_round_out :: "nat list \<Rightarrow> nat \<Rightarrow> nat \<Rightarrow> nat list" where
  "sha_round_out s t1 t2 = add32 t1 t2 # take 3 s @ add32 (s ! 3) t1 # take 3 (drop 4 s)"

definition sha_round :: "nat list \<Rightarrow> nat \<times> nat \<Rightarrow> nat list" where
  "sha_round s kw =
     sha_round_out s
       (add32 (add32 (add32 (add32 (s ! 7) (big_sigma1 (s ! 4))) (sha_ch (s ! 4) (s ! 5) (s ! 6))) (fst kw))
          (snd kw))
       (add32 (big_sigma0 (s ! 0)) (sha_maj (s ! 0) (s ! 1) (s ! 2)))"

definition compress :: "nat list \<Rightarrow> nat list \<Rightarrow> nat list" where
  "compress hs block =
     map2 add32 hs (foldl sha_round hs (zip K256 (rev (schedule 48 (rev block)))))"

fun be32 :: "nat list \<Rightarrow> nat list" where
  "be32 (a # b # c # d # bs) = (((a * 256 + b) * 256 + c) * 256 + d) # be32 bs"
| "be32 _ = []"

fun chunks :: "nat \<Rightarrow> 'a list \<Rightarrow> 'a list list" where
  "chunks n [] = []"
| "chunks n (x # xs) =
     (if n = 0 then [x # xs] else take n (x # xs) # chunks n (drop n (x # xs)))"

definition be_bytes :: "nat \<Rightarrow> nat \<Rightarrow> nat list" where
  "be_bytes k n = map (\<lambda>i. (n div 256 ^ i) mod 256) (rev [0..<k])"

definition pad :: "nat list \<Rightarrow> nat list" where
  "pad m =
     m @ [128] @ replicate ((119 - length m mod 64) mod 64) 0 @ be_bytes 8 (8 * length m)"

definition sha256_hexdigest :: "nat list \<Rightarrow> pystr" where
  "sha256_hexdigest m =
     concat (map (hex_fixed 8) (foldl compress H256 (map be32 (chunks 64 (pad m)))))"

text \<open>
  \<^verbatim>\<open>s.encode("utf-8")\<close>. Python refuses a lone surrogate; the strings hashed here are
  ASCII (the canonical form) or come from a text column (the previous hash), which cannot
  hold one, so the encoding is written for every code point.
\<close>

definition utf8_char :: "nat \<Rightarrow> nat list" where
  "utf8_char c =
     (if c < 128 then [c]
      else if c < 2048 then [192 + c div 64, 128 + c mod 64]
      else if c < 65536 then [224 + c div 4096, 128 + (c div 64) mod 64, 128 + c mod 64]
      else [240 + c div 262144, 128 + (c div 4096) mod 64, 128 + (c div 64) mod 64,
            128 + c mod 64])"

definition utf8_encode :: "pystr \<Rightarrow> nat list" where
  "utf8_encode s = concat (map utf8_char s)"

section \<open>The Hash Engine: \<^verbatim>\<open>LedgerService._compute_hash\<close>\<close>

definition compute_hash ::
  "uuid \<Rightarrow> int \<Rightarrow> pystr \<Rightarrow> datetime \<Rightarrow> pystr \<Rightarrow> pystr \<Rightarrow> uuid \<Rightarrow> json \<Rightarrow> uuid option \<Rightarrow> bool
     \<Rightarrow> pystr" where
  "compute_hash eid seq prev ts etype role member cont supers emergency =
     (let hashable = JDict
            [(lit ''id'', JStr (str_uuid eid)),
             (lit ''sequence_number'', JInt seq),
             (lit ''previous_hash'', JStr prev),
             (lit ''timestamp'', JStr (isoformat ts)),
             (lit ''entry_type'', JStr etype),
             (lit ''author_role'', JStr role),
             (lit ''author_member_id'', JStr (str_uuid member)),
             (lit ''content'', cont),
             (lit ''supersedes'', (case supers of None \<Rightarrow> JNull | Some u \<Rightarrow> JStr (str_uuid u))),
             (lit ''emergency_designation'', JBool emergency)];
          canonical = dumps hashable
      in sha256_hexdigest (utf8_encode (prev @ canonical)))"

section \<open>The ledger table: \<^verbatim>\<open>LedgerEntryDB\<close>\<close>

text \<open>
  One row of \<^verbatim>\<open>ledger_entries\<close>. The column \<^verbatim>\<open>id\<close> is the field \<open>entry_id\<close>.
\<close>

record LedgerEntryDB =
  entry_id :: uuid
  sequence_number :: int
  previous_hash :: pystr
  entry_hash :: pystr
  timestamp :: datetime
  entry_type :: pystr
  author_role :: pystr
  author_member_id :: uuid
  content :: json
  supersedes :: "uuid option"
  emergency_designation :: bool

text \<open>
  The store is the table: its rows in the order they were inserted. A session reads
  what was committed and gets every value back as it was written.
\<close>

type_synonym store = "LedgerEntryDB list"

datatype error =
    LedgerIntegrityError pystr
  | IntegrityError
  | MultipleResultsFound

definition GENESIS_HASH :: pystr where
  "GENESIS_HASH = replicate 64 48"

text \<open>
  The constraints the model declares for the table: the primary key \<^verbatim>\<open>id\<close>, the unique
  columns \<^verbatim>\<open>sequence_number\<close> and \<^verbatim>\<open>entry_hash\<close>, and the foreign key from
  \<^verbatim>\<open>supersedes\<close> to \<^verbatim>\<open>id\<close>. \<open>commit\<close> is \<^verbatim>\<open>session.add(row); session.commit()\<close>:
  the row is appended, or the database raises \<^verbatim>\<open>IntegrityError\<close> and nothing is written.
\<close>

definition constraints_hold :: "LedgerEntryDB \<Rightarrow> store \<Rightarrow> bool" where
  "constraints_hold row rows \<longleftrightarrow>
     entry_id row \<notin> set (map entry_id rows)
     \<and> sequence_number row \<notin> set (map sequence_number rows)
     \<and> entry_hash row \<notin> set (map entry_hash rows)
     \<and> (case supersedes row of None \<Rightarrow> True
        | Some u \<Rightarrow> u \<in> set (map entry_id (rows @ [row])))"

definition commit :: "LedgerEntryDB \<Rightarrow> store \<Rightarrow> (error + LedgerEntryDB) \<times> store" where
  "commit row rows =
     (if constraints_hold row rows then (Inr row, rows @ [row]) else (Inl IntegrityError, rows))"

text \<open>\<^verbatim>\<open>select(LedgerEntryDB).order_by(LedgerEntryDB.sequence_number.asc())\<close>\<close>

definition select_asc :: "store \<Rightarrow> LedgerEntryDB list" where
  "select_asc rows = sort_key sequence_number rows"

text \<open>\<^verbatim>\<open>select(LedgerEntryDB).order_by(sequence_number.desc()).limit(1)\<close>, \<^verbatim>\<open>scalar_one_or_none()\<close>\<close>

definition last_entry :: "store \<Rightarrow> LedgerEntryDB option" where
  "last_entry rows = (case rev (select_asc rows) of [] \<Rightarrow> None | e # _ \<Rightarrow> Some e)"

section \<open>\<^verbatim>\<open>LedgerService\<close>\<close>

subsection \<open>\<^verbatim>\<open>_create_genesis_block\<close> and \<^verbatim>\<open>initialize\<close>\<close>

text \<open>
  The two \<^verbatim>\<open>uuid4()\<close> values and \<^verbatim>\<open>datetime.now(timezone.utc)\<close> are arguments. The two
  dashes of the payload are U+2014.
\<close>

definition genesis_content :: json where
  "genesis_content = JDict
     [(lit ''message'', JStr (lit ''Genesis of the National Ledger of Nova Syntheia'')),
      (lit ''declaration'',
         JStr (lit ''This entry establishes the permanent institutional record ''
               @ lit ''of Nova Syntheia '' @ [8212] @ lit '' a constitutional polity of human and ''
               @ lit ''artificial members. E Pluribus Unum '' @ [8212] @ lit '' And Together, More.'')),
      (lit ''integrity_standard'', JDict
         [(lit ''cryptographically_verifiable'', JBool True),
          (lit ''append_only'', JBool True),
          (lit ''independently_auditable'', JBool True)]),
      (lit ''constitutional_authority'',
         JStr (lit ''Article VIII '' @ [8212] @ lit '' The National Ledger''))]"

definition create_genesis_block :: "uuid \<Rightarrow> uuid \<Rightarrow> datetime \<Rightarrow> LedgerEntryDB" where
  "create_genesis_block genesis_id system_member_id genesis_timestamp =
     \<lparr>entry_id = genesis_id,
      sequence_number = 0,
      previous_hash = GENESIS_HASH,
      entry_hash = compute_hash genesis_id 0 GENESIS_HASH genesis_timestamp (lit ''genesis'')
                     (lit ''system'') system_member_id genesis_content None False,
      timestamp = genesis_timestamp,
      entry_type = lit ''genesis'',
      author_role = lit ''system'',
      author_member_id = system_member_id,
      content = genesis_content,
      supersedes = None,
      emergency_designation = False\<rparr>"

text \<open>
  \<^verbatim>\<open>scalar_one_or_none()\<close> on the rows with sequence number 0: none, the one, or
  \<^verbatim>\<open>MultipleResultsFound\<close>.
\<close>

definition initialize :: "uuid \<Rightarrow> uuid \<Rightarrow> datetime \<Rightarrow> store \<Rightarrow> (error + unit) \<times> store" where
  "initialize genesis_id system_member_id genesis_timestamp rows =
     (case filter (\<lambda>e. sequence_number e = 0) rows of
        [] \<Rightarrow>
          (case commit (create_genesis_block genesis_id system_member_id genesis_timestamp) rows of
             (Inl err, rows') \<Rightarrow> (Inl err, rows')
           | (Inr genesis, rows') \<Rightarrow> (Inr (), rows'))
      | [existing] \<Rightarrow> (Inr (), rows)
      | _ \<Rightarrow> (Inl MultipleResultsFound, rows))"

subsection \<open>\<^verbatim>\<open>append\<close>\<close>

text \<open>
  \<open>new_entry\<close> is the row \<^verbatim>\<open>append\<close> builds on the tip it has read; \<open>new_id\<close> and \<open>now\<close>
  are the results of \<^verbatim>\<open>uuid4()\<close> and \<^verbatim>\<open>datetime.now(timezone.utc)\<close>.
\<close>

definition new_entry ::
  "LedgerEntryDB \<Rightarrow> pystr \<Rightarrow> pystr \<Rightarrow> uuid \<Rightarrow> json \<Rightarrow> uuid option \<Rightarrow> bool \<Rightarrow> uuid \<Rightarrow> datetime
     \<Rightarrow> LedgerEntryDB" where
  "new_entry tip etype role member cont supers emergency new_id now =
     (let new_seq = sequence_number tip + 1;
          prev = entry_hash tip
      in \<lparr>entry_id = new_id,
          sequence_number = new_seq,
          previous_hash = prev,
          entry_hash = compute_hash new_id new_seq prev now etype role member cont supers emergency,
          timestamp = now,
          entry_type = etype,
          author_role = role,
          author_member_id = member,
          content = cont,
          supersedes = supers,
          emergency_designation = emergency\<rparr>)"

definition no_genesis_message :: pystr where
  "no_genesis_message = lit ''Cannot append: no genesis block found. Call initialize() first.''"

text \<open>
  \<^verbatim>\<open>append\<close> reads the tip and then, in the same session, builds and commits the new
  row. \<open>append_with_tip\<close> is everything after the read: what it does depends on the tip
  that was read and on the table as it is when the row is committed.
\<close>

definition append_with_tip ::
  "LedgerEntryDB option \<Rightarrow> pystr \<Rightarrow> pystr \<Rightarrow> uuid \<Rightarrow> json \<Rightarrow> uuid option \<Rightarrow> bool \<Rightarrow> uuid
     \<Rightarrow> datetime \<Rightarrow> store \<Rightarrow> (error + LedgerEntryDB) \<times> store" where
  "append_with_tip last_entry_read etype role member cont supers emergency new_id now rows =
     (case last_entry_read of
        None \<Rightarrow> (Inl (LedgerIntegrityError no_genesis_message), rows)
      | Some tip \<Rightarrow> commit (new_entry tip etype role member cont supers emergency new_id now) rows)"

definition append ::
  "pystr \<Rightarrow> pystr \<Rightarrow> uuid \<Rightarrow> json \<Rightarrow> uuid option \<Rightarrow> bool \<Rightarrow> uuid \<Rightarrow> datetime \<Rightarrow> store
     \<Rightarrow> (error + LedgerEntryDB) \<times> store" where
  "append etype role member cont supers emergency new_id now rows =
     append_with_tip (last_entry rows) etype role member cont supers emergency new_id now rows"

subsection \<open>\<^verbatim>\<open>verify_chain\<close>\<close>

text \<open>The hash recomputed from the stored fields of a row, as \<^verbatim>\<open>verify_chain\<close> does.\<close>

definition entry_digest :: "LedgerEntryDB \<Rightarrow> pystr" where
  "entry_digest e =
     compute_hash (entry_id e) (sequence_number e) (previous_hash e) (timestamp e) (entry_type e)
       (author_role e) (author_member_id e) (content e) (supersedes e) (emergency_designation e)"

definition hash_mismatch_message :: "LedgerEntryDB \<Rightarrow> pystr \<Rightarrow> pystr" where
  "hash_mismatch_message entry expected_hash =
     lit ''Hash mismatch at sequence '' @ str_int (sequence_number entry)
     @ lit '': stored='' @ take 16 (entry_hash entry)
     @ lit ''... computed='' @ take 16 expected_hash @ lit ''...''"

definition chain_break_message :: "LedgerEntryDB \<Rightarrow> pystr" where
  "chain_break_message entry =
     lit ''Chain break at sequence '' @ str_int (sequence_number entry)
     @ lit '': previous_hash does not match prior entry'' @ [39] @ lit ''s hash''"

definition no_entries_message :: pystr where
  "no_entries_message = lit ''No entries found in ledger''"

definition first_sequence_message :: "LedgerEntryDB \<Rightarrow> pystr" where
  "first_sequence_message first =
     lit ''First entry has sequence '' @ str_int (sequence_number first) @ lit '', expected 0''"

definition genesis_hash_message :: pystr where
  "genesis_hash_message = lit ''Genesis block has incorrect previous_hash''"

definition verified_message :: "nat \<Rightarrow> pystr" where
  "verified_message n =
     lit ''Chain verified: '' @ str_int (int n) @ lit '' entries, integrity intact''"

text \<open>
  The loop \<^verbatim>\<open>for i, entry in enumerate(entries)\<close>: \<open>i\<close> is the index of the first of the
  entries still to be checked.
\<close>

fun verify_loop :: "LedgerEntryDB list \<Rightarrow> nat \<Rightarrow> LedgerEntryDB list \<Rightarrow> bool \<times> nat \<times> pystr" where
  "verify_loop entries i [] = (True, length entries, verified_message (length entries))"
| "verify_loop entries i (entry # rest) =
     (let expected_hash = entry_digest entry
      in if entry_hash entry \<noteq> expected_hash
         then (False, i, hash_mismatch_message entry expected_hash)
         else if i > 0 \<and> previous_hash entry \<noteq> entry_hash (entries ! (i - 1))
         then (False, i, chain_break_message entry)
         else verify_loop entries (i + 1) rest)"

definition verify_chain :: "store \<Rightarrow> bool \<times> nat \<times> pystr" where
  "verify_chain rows =
     (let entries = select_asc rows
      in case entries of
           [] \<Rightarrow> (False, 0, no_entries_message)
         | first # _ \<Rightarrow>
             if sequence_number first \<noteq> 0 then (False, 0, first_sequence_message first)
             else if previous_hash first \<noteq> GENESIS_HASH then (False, 0, genesis_hash_message)
             else verify_loop entries 0 entries)"

subsection \<open>The audit tool: \<^verbatim>\<open>run_audit\<close>\<close>

text \<open>
  \<^verbatim>\<open>get_entry_count\<close> counts the rows. \<^verbatim>\<open>run_audit\<close> is modelled by the value it
  returns; what it prints is left out.
\<close>

definition get_entry_count :: "store \<Rightarrow> nat" where
  "get_entry_count rows = length rows"

definition run_audit :: "store \<Rightarrow> bool \<Rightarrow> bool" where
  "run_audit rows verbose =
     (let count = get_entry_count rows
      in if count = 0 then True
         else (case verify_chain rows of (is_valid, entries_verified, message) \<Rightarrow> is_valid))"

section \<open>Reachable stores and logical content\<close>

text \<open>
  The stores that calls of \<^verbatim>\<open>initialize\<close> and \<^verbatim>\<open>append\<close> produce from the empty table,
  whatever the calls return.
\<close>

inductive reachable :: "store \<Rightarrow> bool" where
  empty: "reachable []"
| init: "reachable rows \<Longrightarrow> initialize genesis_id system_member_id genesis_timestamp rows = (r, rows')
     \<Longrightarrow> reachable rows'"
| app: "reachable rows
     \<Longrightarrow> append etype role member cont supers emergency new_id now rows = (r, rows')
     \<Longrightarrow> reachable rows'"

text \<open>
  What the chain of a store is expected to satisfy: the rows are in sequence order,
  numbered from 0, the first one starts from the sentinel, every row carries the digest of
  its own fields, and every later row carries the hash of the row before it.
\<close>

definition chain_inv :: "store \<Rightarrow> bool" where
  "chain_inv rows \<longleftrightarrow>
     rows \<noteq> []
     \<and> map sequence_number rows = map int [0..<length rows]
     \<and> previous_hash (hd rows) = GENESIS_HASH
     \<and> (\<forall>e \<in> set rows. entry_hash e = entry_digest e)
     \<and> (\<forall>i. 0 < i \<and> i < length rows \<longrightarrow> previous_hash (rows ! i) = entry_hash (rows ! (i - 1)))"

text \<open>
  Two contents with the same logical key-value pairs: equal but for the order in which the
  keys of a dict were inserted, at any depth. \<open>keys_unique\<close> is what every Python dict
  satisfies: a key occurs once.
\<close>

inductive same_content :: "json \<Rightarrow> json \<Rightarrow> bool" where
  same: "same_content v v"
| list: "list_all2 same_content xs ys \<Longrightarrow> same_content (JList xs) (JList ys)"
| dict: "list_all2 (\<lambda>kv kv'. fst kv = fst kv' \<and> same_content (snd kv) (snd kv')) kvs kvs'
     \<Longrightarrow> mset kvs'' = mset kvs' \<Longrightarrow> same_content (JDict kvs) (JDict kvs'')"

function keys_unique :: "json \<Rightarrow> bool" where
  "keys_unique JNull = True"
| "keys_unique (JBool b) = True"
| "keys_unique (JInt i) = True"
| "keys_unique (JStr s) = True"
| "keys_unique (JList xs) = list_all keys_unique xs"
| "keys_unique (JDict kvs) =
     (distinct (map fst kvs) \<and> list_all (\<lambda>kv. keys_unique (snd kv)) kvs)"
  by pat_completeness auto

termination keys_unique
proof (relation "measure size")
  show "wf (measure size)" by simp
next
  fix xs :: "json list" and x
  assume "x \<in> set xs"
  then show "(x, JList xs) \<in> measure size"
    by (induction xs) auto
next
  fix kvs :: "(pystr \<times> json) list" and kv
  assume "kv \<in> set kvs"
  then have "size (snd kv) < Suc (size_list (size_prod (\<lambda>_. 0) size) kvs)"
    by (induction kvs) (auto simp: less_Suc_eq_le)
  then show "(snd kv, JDict kvs) \<in> measure size" by simp
qed

section \<open>A recorded run\<close>

text \<open>
  The scenario of the specification with the values of one run: \<^verbatim>\<open>initialize\<close> on the
  empty table, then one \<^verbatim>\<open>append\<close> of an executive action with the content
  \<^verbatim>\<open>{"action": "alpha"}\<close>.
\<close>

definition run_genesis_id :: uuid where
  "run_genesis_id = 0x12345678123456781234567812345678"

definition run_system_id :: uuid where
  "run_system_id = 0xabcdefabcdefabcdefabcdefabcdefab"

definition run_entry_id :: uuid where
  "run_entry_id = 0x11111111111111111111111111111111"

definition run_time0 :: datetime where
  "run_time0 = \<lparr>year = 2024, month = 1, day = 2, hour = 3, minute = 4, second = 5,
                 microsecond = 678, utcoffset = 0\<rparr>"

definition run_time1 :: datetime where
  "run_time1 = \<lparr>year = 2024, month = 1, day = 2, hour = 3, minute = 4, second = 6,
                 microsecond = 0, utcoffset = 0\<rparr>"

definition content_alpha :: json where
  "content_alpha = JDict [(lit ''action'', JStr (lit ''alpha''))]"

definition content_beta :: json where
  "content_beta = JDict [(lit ''action'', JStr (lit ''beta''))]"

definition run_genesis :: LedgerEntryDB where
  "run_genesis = create_genesis_block run_genesis_id run_system_id run_time0"

definition run_entry :: LedgerEntryDB where
  "run_entry =
     new_entry run_genesis (lit ''executive_action'') (lit ''operations_executive'')
       run_system_id content_alpha None False run_entry_id run_time1"

definition run_rival_id :: uuid where
  "run_rival_id = 0x22222222222222222222222222222222"

definition run_time2 :: datetime where
  "run_time2 = \<lparr>year = 2024, month = 1, day = 2, hour = 3, minute = 4, second = 6,
                 microsecond = 250000, utcoffset = 0\<rparr>"

definition run_store :: store where
  "run_store = [run_genesis, run_entry]"

text \<open>Two contents that differ only in the order of their keys, at both depths.\<close>

definition order_a :: json where
  "order_a = JDict [(lit ''a'', JInt 1),
                    (lit ''b'', JDict [(lit ''x'', JBool True), (lit ''y'', JList [JNull])])]"

definition order_b :: json where
  "order_b = JDict [(lit ''b'', JDict [(lit ''y'', JList [JNull]), (lit ''x'', JBool True)]),
                    (lit ''a'', JInt 1)]"

section \<open>Auxiliary facts\<close>

subsection \<open>Reading the tip, committing a row\<close>

lemma last_entry_None_iff: "last_entry rows = None \<longleftrightarrow> rows = []"
proof -
  have "rev (select_asc rows) = [] \<longleftrightarrow> rows = []"
    by (simp add: select_asc_def) (metis length_0_conv length_sort)
  then show ?thesis
    by (auto simp: last_entry_def split: list.splits)
qed

lemma last_entry_SomeD:
  assumes "last_entry rows = Some tip"
  shows "tip \<in> set rows" and "\<forall>r \<in> set rows. sequence_number r \<le> sequence_number tip"
proof -
  from assms obtain rest where r: "rev (select_asc rows) = tip # rest"
    by (auto simp: last_entry_def split: list.splits)
  then have s: "select_asc rows = rev rest @ [tip]"
    by (metis rev_rev_ident rev.simps(2))
  have "set (select_asc rows) = set rows" by (simp add: select_asc_def)
  with s show "tip \<in> set rows" by auto
  have "sorted (map sequence_number (select_asc rows))"
    by (simp add: select_asc_def)
  with s have "\<forall>r \<in> set (rev rest). sequence_number r \<le> sequence_number tip"
    by (simp add: sorted_append)
  moreover from s \<open>set (select_asc rows) = set rows\<close>
  have "set rows = set (rev rest) \<union> {tip}" by simp
  ultimately show "\<forall>r \<in> set rows. sequence_number r \<le> sequence_number tip"
    by auto
qed

lemma commit_cases:
  "commit row rows = (Inr row, rows @ [row]) \<and> constraints_hold row rows
   \<or> commit row rows = (Inl IntegrityError, rows) \<and> \<not> constraints_hold row rows"
  by (simp add: commit_def)

lemma commit_InrD: "commit row rows = (Inr e, rows') \<Longrightarrow> e = row \<and> rows' = rows @ [row] \<and> constraints_hold row rows"
  by (auto simp: commit_def split: if_splits)

lemma append_InrD:
  assumes "append etype role member cont supers emergency new_id now rows = (Inr e, rows')"
  shows "\<exists>tip. last_entry rows = Some tip
           \<and> e = new_entry tip etype role member cont supers emergency new_id now
           \<and> rows' = rows @ [e] \<and> constraints_hold e rows"
  using assms by (auto simp: append_def append_with_tip_def split: option.splits dest: commit_InrD)

lemma entry_digest_new_entry:
  "entry_digest (new_entry tip etype role member cont supers emergency new_id now)
     = entry_hash (new_entry tip etype role member cont supers emergency new_id now)"
  by (simp add: entry_digest_def new_entry_def Let_def)

lemma constraints_hold_Nil: "supersedes row = None \<Longrightarrow> constraints_hold row []"
  by (simp add: constraints_hold_def)

lemma initialize_Nil:
  "initialize g s t [] = (Inr (), [create_genesis_block g s t])"
proof -
  have "supersedes (create_genesis_block g s t) = None"
    by (simp add: create_genesis_block_def)
  then have "commit (create_genesis_block g s t) [] = (Inr (create_genesis_block g s t), [create_genesis_block g s t])"
    by (simp add: commit_def constraints_hold_Nil)
  then show ?thesis by (simp add: initialize_def)
qed

lemma initialize_cases:
  "initialize g s t rows =
     (if filter (\<lambda>e. sequence_number e = 0) rows = []
      then (if constraints_hold (create_genesis_block g s t) rows
            then (Inr (), rows @ [create_genesis_block g s t]) else (Inl IntegrityError, rows))
      else if length (filter (\<lambda>e. sequence_number e = 0) rows) = 1 then (Inr (), rows)
      else (Inl MultipleResultsFound, rows))"
proof (cases "filter (\<lambda>e. sequence_number e = 0) rows")
  case Nil
  then show ?thesis by (simp add: initialize_def commit_def)
next
  case (Cons x xs)
  then show ?thesis by (cases xs) (simp_all add: initialize_def)
qed

subsection \<open>The chain invariant\<close>

lemma sorted_int_upt: "sorted (map int [0..<n])"
  by (induction n) (auto simp: sorted_append)

lemma chain_inv_select_asc: "chain_inv rows \<Longrightarrow> select_asc rows = rows"
  unfolding select_asc_def chain_inv_def
  by (intro sort_key_id_if_sorted) (simp add: sorted_int_upt)

lemma chain_inv_seq_nth: "chain_inv rows \<Longrightarrow> i < length rows \<Longrightarrow> sequence_number (rows ! i) = int i"
proof -
  assume c: "chain_inv rows" and i: "i < length rows"
  then have "map sequence_number rows ! i = map int [0..<length rows] ! i"
    by (simp add: chain_inv_def)
  with i show ?thesis by simp
qed

lemma chain_inv_last_entry: "chain_inv rows \<Longrightarrow> last_entry rows = Some (last rows)"
proof -
  assume c: "chain_inv rows"
  then have "rows \<noteq> []" by (simp add: chain_inv_def)
  then obtain ys y where r: "rows = ys @ [y]"
    by (cases rows rule: rev_cases) auto
  from c have "last_entry rows = (case rev rows of [] \<Rightarrow> None | e # _ \<Rightarrow> Some e)"
    by (simp add: last_entry_def chain_inv_select_asc)
  with r show ?thesis by simp
qed

lemma chain_inv_seq_last: "chain_inv rows \<Longrightarrow> sequence_number (last rows) = int (length rows) - 1"
proof -
  assume c: "chain_inv rows"
  then have n: "rows \<noteq> []" by (simp add: chain_inv_def)
  then have "last rows = rows ! (length rows - 1)" by (simp add: last_conv_nth)
  with c n show ?thesis
    using chain_inv_seq_nth [of rows "length rows - 1"] by (simp add: of_nat_diff Suc_leI)
qed

lemma entry_digest_genesis:
  "entry_digest (create_genesis_block g s t) = entry_hash (create_genesis_block g s t)"
  by (simp add: entry_digest_def create_genesis_block_def)

lemma chain_inv_genesis: "chain_inv [create_genesis_block g s t]"
  by (simp add: chain_inv_def entry_digest_genesis) (simp add: create_genesis_block_def)

lemma chain_inv_snoc:
  assumes c: "chain_inv rows"
    and e: "e = new_entry (last rows) etype role member cont supers emergency new_id now"
  shows "chain_inv (rows @ [e])"
proof -
  from c have n: "rows \<noteq> []" by (simp add: chain_inv_def)
  have seq_e: "sequence_number e = int (length rows)"
    using chain_inv_seq_last [OF c] e by (simp add: new_entry_def Let_def)
  have prev_e: "previous_hash e = entry_hash (rows ! (length rows - 1))"
    using e n by (simp add: new_entry_def Let_def last_conv_nth)
  have dig_e: "entry_hash e = entry_digest e"
    using e by (simp add: entry_digest_new_entry)
  have "map sequence_number (rows @ [e]) = map int [0..<length (rows @ [e])]"
    using c seq_e by (simp add: chain_inv_def)
  moreover have "previous_hash (hd (rows @ [e])) = GENESIS_HASH"
    using c n by (simp add: chain_inv_def)
  moreover have "\<forall>x \<in> set (rows @ [e]). entry_hash x = entry_digest x"
    using c dig_e by (auto simp: chain_inv_def)
  moreover have "\<forall>i. 0 < i \<and> i < length (rows @ [e])
      \<longrightarrow> previous_hash ((rows @ [e]) ! i) = entry_hash ((rows @ [e]) ! (i - 1))"
  proof (intro allI impI)
    fix i assume i: "0 < i \<and> i < length (rows @ [e])"
    show "previous_hash ((rows @ [e]) ! i) = entry_hash ((rows @ [e]) ! (i - 1))"
    proof (cases "i < length rows")
      case True
      then have "i - 1 < length rows" by simp
      moreover from c i True have "previous_hash (rows ! i) = entry_hash (rows ! (i - 1))"
        by (simp add: chain_inv_def)
      ultimately show ?thesis using True by (simp add: nth_append)
    next
      case False
      with i have "i = length rows" by simp
      with n prev_e show ?thesis by (simp add: nth_append)
    qed
  qed
  ultimately show ?thesis by (simp add: chain_inv_def)
qed

lemma chain_inv_filter_zero:
  assumes "chain_inv rows"
  shows "filter (\<lambda>e. sequence_number e = 0) rows = [hd rows]"
proof -
  from assms obtain x xs where r: "rows = x # xs"
    by (cases rows) (auto simp: chain_inv_def)
  have x0: "sequence_number x = 0"
    using chain_inv_seq_nth [OF assms, of 0] r by simp
  have "\<forall>e \<in> set xs. sequence_number e \<noteq> 0"
  proof
    fix e assume "e \<in> set xs"
    then obtain j where j: "j < length xs" and e: "e = xs ! j"
      by (auto simp: in_set_conv_nth)
    then have "sequence_number e = int (Suc j)"
      using chain_inv_seq_nth [OF assms, of "Suc j"] r by simp
    then show "sequence_number e \<noteq> 0" by simp
  qed
  with x0 r show ?thesis
    by (simp add: filter_empty_conv)
qed

lemma initialize_chain_inv:
  "chain_inv rows \<Longrightarrow> initialize g s t rows = (Inr (), rows)"
  by (simp add: initialize_def chain_inv_filter_zero)

lemma append_chain_inv:
  assumes c: "chain_inv rows"
    and a: "append etype role member cont supers emergency new_id now rows = (r, rows')"
  shows "chain_inv rows'"
proof -
  let ?e = "new_entry (last rows) etype role member cont supers emergency new_id now"
  from c a have "commit ?e rows = (r, rows')"
    by (simp add: append_def append_with_tip_def chain_inv_last_entry)
  with commit_cases [of ?e rows] have "rows' = rows @ [?e] \<or> rows' = rows" by auto
  with c show ?thesis by (auto intro: chain_inv_snoc)
qed

lemma reachable_chain_inv: "reachable rows \<Longrightarrow> rows = [] \<or> chain_inv rows"
proof (induction rule: reachable.induct)
  case empty
  show ?case by simp
next
  case (init rows g s t r rows')
  show ?case
  proof (cases "rows = []")
    case True
    with init.hyps(2) have "rows' = [create_genesis_block g s t]"
      by (simp add: initialize_Nil)
    then show ?thesis by (simp add: chain_inv_genesis)
  next
    case False
    with init.IH have c: "chain_inv rows" by simp
    with init.hyps(2) have "rows' = rows" by (simp add: initialize_chain_inv)
    with c show ?thesis by simp
  qed
next
  case (app rows etype role member cont supers emergency new_id now r rows')
  show ?case
  proof (cases "rows = []")
    case True
    with app.hyps(2) have "rows' = []"
      by (simp add: append_def append_with_tip_def last_entry_def select_asc_def)
    then show ?thesis by simp
  next
    case False
    with app.IH have "chain_inv rows" by simp
    then show ?thesis using app.hyps(2) by (auto dest: append_chain_inv)
  qed
qed

subsection \<open>The verification loop\<close>

lemma verify_loop_ok:
  assumes "drop i rows = es"
    and "\<forall>e \<in> set rows. entry_hash e = entry_digest e"
    and "\<forall>j. 0 < j \<and> j < length rows \<longrightarrow> previous_hash (rows ! j) = entry_hash (rows ! (j - 1))"
  shows "verify_loop rows i es = (True, length rows, verified_message (length rows))"
  using assms(1)
proof (induction es arbitrary: i)
  case Nil
  show ?case by simp
next
  case (Cons e es)
  from Cons.prems have i: "i < length rows"
    by (metis drop_all list.distinct(1) not_le)
  with Cons.prems have e: "e = rows ! i"
    by (metis nth_via_drop)
  from Cons.prems have d: "drop (Suc i) rows = es"
    by (metis drop_Suc list.sel(3) tl_drop)
  from e i assms(2) have h: "entry_hash e = entry_digest e" by simp
  from e i assms(3) have l: "0 < i \<longrightarrow> previous_hash e = entry_hash (rows ! (i - 1))" by simp
  from Cons.IH [OF d] h l show ?case by (auto simp: Let_def)
qed

lemma verify_loop_first_mismatch:
  assumes "drop i entries = es" and "i \<le> k" and "k < length entries"
    and "\<forall>j < k. entry_hash (entries ! j) = entry_digest (entries ! j)"
    and "\<forall>j < k. 0 < j \<longrightarrow> previous_hash (entries ! j) = entry_hash (entries ! (j - 1))"
    and "entry_hash (entries ! k) \<noteq> entry_digest (entries ! k)"
  shows "verify_loop entries i es
       = (False, k, hash_mismatch_message (entries ! k) (entry_digest (entries ! k)))"
  using assms(1,2)
proof (induction es arbitrary: i)
  case Nil
  with assms(3) show ?case by simp
next
  case (Cons e es)
  from Cons.prems(1) have i: "i < length entries"
    by (metis drop_all list.distinct(1) not_le)
  with Cons.prems(1) have e: "e = entries ! i"
    by (metis nth_via_drop)
  from Cons.prems(1) have d: "drop (Suc i) entries = es"
    by (metis drop_Suc list.sel(3) tl_drop)
  show ?case
  proof (cases "i = k")
    case True
    with e assms(6) show ?thesis by (simp add: Let_def)
  next
    case False
    with Cons.prems(2) have lt: "i < k" by simp
    with e assms(4) have h: "entry_hash e = entry_digest e" by simp
    from lt e assms(5) have l: "0 < i \<longrightarrow> previous_hash e = entry_hash (entries ! (i - 1))" by simp
    from lt have "Suc i \<le> k" by simp
    from Cons.IH [OF d this] h l show ?thesis by (auto simp: Let_def)
  qed
qed

subsection \<open>Sorting the items of a dict\<close>

lemma list_all2_insort_key:
  assumes "list_all2 R xs ys" and "R x y"
    and "\<And>a b. R a b \<Longrightarrow> f a = g b"
  shows "list_all2 R (insort_key f x xs) (insort_key g y ys)"
  using assms(1)
proof (induction rule: list_all2_induct)
  case Nil
  from assms(2) show ?case by simp
next
  case (Cons a as b bs)
  from assms(2,3) have "f x = g y" by simp
  moreover from Cons.hyps(1) assms(3) have "f a = g b" by simp
  ultimately show ?case using Cons assms(2) by simp
qed

lemma list_all2_sort_key:
  assumes "list_all2 R xs ys" and "\<And>a b. R a b \<Longrightarrow> f a = g b"
  shows "list_all2 R (sort_key f xs) (sort_key g ys)"
  using assms(1)
proof (induction rule: list_all2_induct)
  case Nil
  show ?case by simp
next
  case (Cons a as b bs)
  then show ?case
    by (simp add: list_all2_insort_key [where R = R and f = f and g = g, OF _ _ assms(2)])
qed

lemma sort_key_mset_eq:
  assumes "mset xs = mset ys" and "distinct (map f xs)"
  shows "sort_key f xs = sort_key f ys"
proof (rule sort_key_inj_key_eq)
  show "mset xs = mset (sort_key f ys)" using assms(1) by simp
  show "inj_on f (set xs)" using assms(2) by (simp add: distinct_map)
  show "sorted (map f (sort_key f ys))" by simp
qed

lemma dumps_same_content:
  "same_content a b \<Longrightarrow> keys_unique a \<Longrightarrow> keys_unique b \<Longrightarrow> dumps a = dumps b"
proof (induction rule: same_content.induct)
  case (same v)
  show ?case by simp
next
  case (list xs ys)
  from list.IH list.prems have "map dumps xs = map dumps ys"
  proof (induction rule: list_all2_induct)
    case Nil
    show ?case by simp
  next
    case (Cons x xs y ys)
    then show ?case by simp
  qed
  then show ?case by simp
next
  case (dict kvs kvs' kvs'')
  let ?item = "\<lambda>kv. encode_str (fst kv) @ lit '': '' @ dumps (snd kv)"
  let ?R = "\<lambda>kv kv'. fst kv = fst kv' \<and> same_content (snd kv) (snd kv') \<and>
      (keys_unique (snd kv) \<longrightarrow> keys_unique (snd kv') \<longrightarrow> dumps (snd kv) = dumps (snd kv'))"
  from dict.hyps have set_eq: "set kvs'' = set kvs'"
    by (metis mset_eq_setD)
  from dict.prems(2) have d2: "distinct (map fst kvs'')" by simp
  have s2: "sort_key fst kvs'' = sort_key fst kvs'"
    using dict.hyps d2 by (rule sort_key_mset_eq)
  have "list_all2 ?R kvs kvs'" using dict.IH by simp
  then have sorted_rel: "list_all2 ?R (sort_key fst kvs) (sort_key fst kvs')"
    by (rule list_all2_sort_key) simp
  have u1: "\<forall>kv \<in> set (sort_key fst kvs). keys_unique (snd kv)"
    using dict.prems(1) by (simp add: list_all_iff)
  have u2: "\<forall>kv \<in> set (sort_key fst kvs'). keys_unique (snd kv)"
    using dict.prems(2) set_eq by (simp add: list_all_iff)
  from sorted_rel u1 u2 have "map ?item (sort_key fst kvs) = map ?item (sort_key fst kvs')"
  proof (induction rule: list_all2_induct)
    case Nil
    show ?case by simp
  next
    case (Cons x xs y ys)
    then show ?case by simp
  qed
  with s2 show ?case by simp
qed

subsection \<open>Evaluating the digests of the recorded run\<close>

text \<open>
  The rules below let the simplifier compute a digest on numerals: the addition of two
  32-bit words without a division, and the list functions at a numeral.
\<close>

lemma add32_numeral:
  "a < 4294967296 \<Longrightarrow> b < 4294967296 \<Longrightarrow>
   add32 a b = (if a + b < 4294967296 then a + b else a + b - 4294967296)"
  by (simp add: add32_def mod_if)

lemma schedule_numeral:
  "schedule (numeral k) ws =
     schedule (pred_numeral k)
       (add32 (add32 (add32 (small_sigma1 (ws ! 1)) (ws ! 6)) (small_sigma0 (ws ! 14))) (ws ! 15) # ws)"
  by (simp add: numeral_eq_Suc)

lemma replicate_numeral: "replicate (numeral k) x = x # replicate (pred_numeral k) x"
  by (simp add: numeral_eq_Suc)

lemma take_numeral: "take (numeral k) (x # xs) = x # take (pred_numeral k) xs"
  by (simp add: numeral_eq_Suc)

lemma drop_numeral: "drop (numeral k) (x # xs) = drop (pred_numeral k) xs"
  by (simp add: numeral_eq_Suc)

lemmas sha256_eval =
  sha256_hexdigest_def pad_def be_bytes_def compress_def sha_round_def sha_round_out_def
  big_sigma0_def big_sigma1_def small_sigma0_def small_sigma1_def sha_ch_def sha_maj_def rotr_def add32_numeral
  schedule_numeral K256_def H256_def hex_fixed_def hexdigit_def
  upt_rec replicate_numeral take_numeral drop_numeral

lemmas compute_hash_eval =
  compute_hash_def Let_def lit_def str_uuid_def isoformat_def format_offset_def zfill_def
  digits10.simps str_int_def encode_str_def escape_char_def u_escape_def
  utf8_encode_def utf8_char_def sha256_eval

text \<open>
  The digest of the three bytes \<^verbatim>\<open>abc\<close> is the test vector of FIPS 180-4. The three
  digests after it are the ones CPython computes for the genesis row of the run, for its
  entry 1, and for entry 1 with the content \<^verbatim>\<open>{"action": "beta"}\<close>.
\<close>

lemma sha256_abc:
  "sha256_hexdigest [97, 98, 99]
   = lit ''ba7816bf8f01cfea414140de5dae2223b00361a396177a9cb410ff61f20015ad''"
  by (simp add: sha256_eval lit_def)

lemma genesis_digest:
  "compute_hash run_genesis_id 0 GENESIS_HASH run_time0 (lit ''genesis'') (lit ''system'')
     run_system_id genesis_content None False
   = lit ''4c8585f9ce06a828c07829cef5817162e1e79fedcef18670c312670b950091aa''"
  by (simp add: compute_hash_eval GENESIS_HASH_def genesis_content_def run_genesis_id_def
        run_system_id_def run_time0_def)

lemma alpha_digest:
  "compute_hash run_entry_id 1
     (lit ''4c8585f9ce06a828c07829cef5817162e1e79fedcef18670c312670b950091aa'') run_time1
     (lit ''executive_action'') (lit ''operations_executive'') run_system_id content_alpha None False
   = lit ''2557516f6d3a0d2fc4710a0c793a381b4dfa734711c163ac7ed5326919dfbce9''"
  by (simp add: compute_hash_eval content_alpha_def run_entry_id_def run_system_id_def
        run_time1_def)

lemma beta_digest:
  "compute_hash run_entry_id 1
     (lit ''4c8585f9ce06a828c07829cef5817162e1e79fedcef18670c312670b950091aa'') run_time1
     (lit ''executive_action'') (lit ''operations_executive'') run_system_id content_beta None False
   = lit ''3dca96d938399483cd26cee026ad1380045f4811860b025a695eea3554d5bf11''"
  by (simp add: compute_hash_eval content_beta_def run_entry_id_def run_system_id_def
        run_time1_def)

text \<open>The run itself: the genesis row, the appended row, and that the store is reached.\<close>

lemma run_genesis_fields:
  "entry_id run_genesis = run_genesis_id"
  "sequence_number run_genesis = 0"
  "previous_hash run_genesis = GENESIS_HASH"
  "supersedes run_genesis = None"
  "entry_hash run_genesis = lit ''4c8585f9ce06a828c07829cef5817162e1e79fedcef18670c312670b950091aa''"
  by (simp_all add: run_genesis_def create_genesis_block_def genesis_digest)

lemma run_entry_fields:
  "entry_id run_entry = run_entry_id"
  "sequence_number run_entry = 1"
  "previous_hash run_entry = lit ''4c8585f9ce06a828c07829cef5817162e1e79fedcef18670c312670b950091aa''"
  "supersedes run_entry = None"
  "entry_hash run_entry = lit ''2557516f6d3a0d2fc4710a0c793a381b4dfa734711c163ac7ed5326919dfbce9''"
  by (simp_all add: run_entry_def new_entry_def Let_def run_genesis_fields alpha_digest)

lemma run_initialize:
  "initialize run_genesis_id run_system_id run_time0 [] = (Inr (), [run_genesis])"
  by (simp add: initialize_Nil run_genesis_def)

lemma run_last_entry: "last_entry [run_genesis] = Some run_genesis"
  by (simp add: last_entry_def select_asc_def)

lemma run_constraints: "constraints_hold run_entry [run_genesis]"
  by (simp add: constraints_hold_def run_genesis_fields run_entry_fields)
     (simp add: run_entry_id_def run_genesis_id_def lit_def)

lemma run_append:
  "append (lit ''executive_action'') (lit ''operations_executive'') run_system_id content_alpha
     None False run_entry_id run_time1 [run_genesis] = (Inr run_entry, run_store)"
  using run_constraints
  by (simp add: append_def append_with_tip_def run_last_entry commit_def run_entry_def run_store_def)

lemma run_store_reachable: "reachable run_store"
  by (rule reachable.app [OF reachable.init [OF reachable.empty run_initialize] run_append])

section \<open>The claims\<close>

text \<open>
  Claim C1, tamper detection, as amended. Take a store that calls of \<^verbatim>\<open>initialize\<close> and
  \<^verbatim>\<open>append\<close> have produced and overwrite the row at index \<open>k\<close> in the table. If the
  rows are still in ascending order of sequence number, and the \<^verbatim>\<open>entry_hash\<close> stored in
  the new row is not the digest of the fields stored in it, then \<^verbatim>\<open>verify_chain\<close> returns
  \<open>False\<close> and \<open>k\<close>. The message is the hash mismatch message, with the sequence number
  of the row and the first 16 characters of both hashes, but for the genesis row: when its
  sequence number is no longer 0 the message names that number and the expected 0, and
  when its \<^verbatim>\<open>previous_hash\<close> is no longer the sentinel the message is the one about the
  genesis block, which names no sequence number.
\<close>

theorem tamper_detected:
  assumes "reachable rows" and "k < length rows"
    and "sorted (map sequence_number (rows[k := e']))"
    and "entry_hash e' \<noteq> entry_digest e'"
  shows "verify_chain (rows[k := e'])
       = (False, k,
          if k = 0 \<and> sequence_number e' \<noteq> 0 then first_sequence_message e'
          else if k = 0 \<and> previous_hash e' \<noteq> GENESIS_HASH then genesis_hash_message
          else hash_mismatch_message e' (entry_digest e'))"
proof -
  let ?rows = "rows[k := e']"
  from assms(1,2) reachable_chain_inv have c: "chain_inv rows" by fastforce
  have sel: "select_asc ?rows = ?rows"
    unfolding select_asc_def using assms(3) by (rule sort_key_id_if_sorted)
  from assms(2) obtain first rest where fr: "?rows = first # rest"
    by (cases ?rows) auto
  from fr assms(2) have first: "first = (if k = 0 then e' else rows ! 0)"
    by (metis length_list_update nth_Cons_0 nth_list_update nth_list_update_neq)
  have k: "?rows ! k = e'" using assms(2) by simp
  have before_hash: "\<forall>j < k. entry_hash (?rows ! j) = entry_digest (?rows ! j)"
    using c assms(2) by (simp add: chain_inv_def)
  have before_link: "\<forall>j < k. 0 < j \<longrightarrow> previous_hash (?rows ! j) = entry_hash (?rows ! (j - 1))"
    using c assms(2) by (simp add: chain_inv_def)
  have loop: "verify_loop ?rows 0 ?rows = (False, k, hash_mismatch_message e' (entry_digest e'))"
    using verify_loop_first_mismatch [of 0 ?rows ?rows k] before_hash before_link assms(2,4) k
    by simp
  have v: "verify_chain ?rows =
      (if sequence_number first \<noteq> 0 then (False, 0, first_sequence_message first)
       else if previous_hash first \<noteq> GENESIS_HASH then (False, 0, genesis_hash_message)
       else verify_loop ?rows 0 ?rows)"
    unfolding verify_chain_def Let_def sel by (simp add: fr)
  show ?thesis
  proof (cases "k = 0")
    case True
    with first v loop show ?thesis by simp
  next
    case False
    with first have f: "first = rows ! 0" by simp
    from c have "rows \<noteq> []" by (simp add: chain_inv_def)
    with c have "previous_hash (rows ! 0) = GENESIS_HASH"
      by (simp add: chain_inv_def hd_conv_nth)
    moreover from c \<open>rows \<noteq> []\<close> have "sequence_number (rows ! 0) = 0"
      using chain_inv_seq_nth [of rows 0] by simp
    ultimately show ?thesis using f v loop False by simp
  qed
qed

text \<open>
  The recorded run, with the content of entry 1 overwritten by \<^verbatim>\<open>{"action": "beta"}\<close>:
  the scenario of the specification, with the message in full.
\<close>

theorem tamper_detected_witness:
  "verify_chain (run_store[1 := run_entry\<lparr>content := content_beta\<rparr>])
   = (False, 1,
      lit ''Hash mismatch at sequence 1: stored=2557516f6d3a0d2f... computed=3dca96d938399483...'')"
proof -
  let ?e = "run_entry\<lparr>content := content_beta\<rparr>"
  have d: "entry_digest ?e = lit ''3dca96d938399483cd26cee026ad1380045f4811860b025a695eea3554d5bf11''"
    using beta_digest
    by (simp add: entry_digest_def run_entry_fields) (simp add: run_entry_def new_entry_def Let_def)
  have h: "entry_hash ?e \<noteq> entry_digest ?e"
    by (simp add: d run_entry_fields) (simp add: lit_def)
  have s: "sorted (map sequence_number (run_store[1 := ?e]))"
    by (simp add: run_store_def run_genesis_fields run_entry_fields)
  have k: "1 < length run_store" by (simp add: run_store_def)
  have m: "hash_mismatch_message ?e (entry_digest ?e)
      = lit ''Hash mismatch at sequence 1: stored=2557516f6d3a0d2f... computed=3dca96d938399483...''"
    by (simp add: hash_mismatch_message_def d run_entry_fields)
       (simp add: lit_def str_int_def digits10.simps)
  from tamper_detected [OF run_store_reachable k s h] m show ?thesis by simp
qed

text \<open>
  As the claim states it, it fails on the recorded run. With another \<^verbatim>\<open>previous_hash\<close> in
  the genesis row the message names no sequence number. With the sequence number of the
  genesis row changed from 0 to 5 the rows are read in another order and the message names
  sequence 1, the number of the row that was not touched. With the sequence number of
  entry 1 changed to -1 the failure is reported at index 0, not 1.
\<close>

theorem tamper_counterexample:
  "verify_chain (run_store[0 := run_genesis\<lparr>previous_hash := replicate 64 49\<rparr>])
     = (False, 0, lit ''Genesis block has incorrect previous_hash'')
   \<and> verify_chain (run_store[0 := run_genesis\<lparr>sequence_number := 5\<rparr>])
     = (False, 0, lit ''First entry has sequence 1, expected 0'')
   \<and> verify_chain (run_store[1 := run_entry\<lparr>sequence_number := - 1\<rparr>])
     = (False, 0, lit ''First entry has sequence -1, expected 0'')"
  by (simp add: verify_chain_def select_asc_def run_store_def run_genesis_fields run_entry_fields
        GENESIS_HASH_def genesis_hash_message_def first_sequence_message_def)
     (simp add: lit_def str_int_def digits10.simps)

text \<open>
  Claim C2, verification soundness. On every store that calls of \<^verbatim>\<open>initialize\<close> and
  \<^verbatim>\<open>append\<close> have produced and that holds at least one row, \<^verbatim>\<open>verify_chain\<close> returns
  \<open>True\<close>, the number of rows, and the message that the chain is verified.
\<close>

theorem verify_chain_sound:
  assumes "reachable rows" and "rows \<noteq> []"
  shows "verify_chain rows = (True, length rows, verified_message (length rows))"
proof -
  from assms reachable_chain_inv have c: "chain_inv rows" by blast
  then obtain first rest where r: "rows = first # rest"
    by (cases rows) (auto simp: chain_inv_def)
  from c r have "sequence_number first = 0"
    using chain_inv_seq_nth [of rows 0] by simp
  moreover from c r have "previous_hash first = GENESIS_HASH"
    by (simp add: chain_inv_def)
  moreover from c have "verify_loop rows 0 rows = (True, length rows, verified_message (length rows))"
    by (intro verify_loop_ok) (simp_all add: chain_inv_def)
  ultimately show ?thesis
    unfolding verify_chain_def Let_def chain_inv_select_asc [OF c]
    using r by simp
qed

text \<open>
  The recorded run: two entries verified.
\<close>

theorem verify_chain_sound_witness:
  "verify_chain run_store = (True, 2, lit ''Chain verified: 2 entries, integrity intact'')"
  using verify_chain_sound [OF run_store_reachable]
  by (simp add: run_store_def verified_message_def str_int_def digits10.simps lit_def)

text \<open>
  Claim C3, the postcondition of \<^verbatim>\<open>append\<close>. When the read of the tip gives \<open>tip\<close> (a row
  of the store with the highest sequence number) and \<^verbatim>\<open>append\<close> returns the entry \<open>e\<close>, then
  the sequence number of \<open>e\<close> is that of the tip plus one, its \<^verbatim>\<open>previous_hash\<close> is the
  \<^verbatim>\<open>entry_hash\<close> of the tip, its \<^verbatim>\<open>entry_hash\<close> is the digest recomputed from its own stored
  fields, and the new store is the old one with \<open>e\<close> added at the end: no row that was
  there has changed.
\<close>

theorem append_postcondition:
  assumes "last_entry rows = Some tip"
    and "append etype role member cont supers emergency new_id now rows = (Inr e, rows')"
  shows "tip \<in> set rows \<and> (\<forall>r \<in> set rows. sequence_number r \<le> sequence_number tip)
     \<and> sequence_number e = sequence_number tip + 1
     \<and> previous_hash e = entry_hash tip
     \<and> entry_hash e = entry_digest e
     \<and> rows' = rows @ [e]"
proof -
  from assms(2) obtain tip' where t: "last_entry rows = Some tip'"
    and e: "e = new_entry tip' etype role member cont supers emergency new_id now"
    and r: "rows' = rows @ [e]"
    using append_InrD by blast
  from t assms(1) have "tip' = tip" by simp
  with e have "sequence_number e = sequence_number tip + 1" and "previous_hash e = entry_hash tip"
    by (simp_all add: new_entry_def Let_def)
  moreover from e have "entry_hash e = entry_digest e"
    by (simp add: entry_digest_new_entry)
  ultimately show ?thesis
    using last_entry_SomeD [OF assms(1)] r by simp
qed

text \<open>
  The append of the recorded run.
\<close>

theorem append_postcondition_witness:
  "sequence_number run_entry = sequence_number run_genesis + 1
   \<and> previous_hash run_entry = entry_hash run_genesis
   \<and> entry_hash run_entry = entry_digest run_entry
   \<and> run_store = [run_genesis] @ [run_entry]"
  using append_postcondition [OF run_last_entry run_append] by simp

text \<open>
  Claim C4, determinism and independence of key order. \<^verbatim>\<open>_compute_hash\<close> is a function of
  its arguments, so computing it twice gives the same digest; and two contents with the
  same key-value pairs, whatever the order in which the keys of their dicts were inserted
  and at whatever depth, give the same digest when all the other fields are the same.
\<close>

theorem hash_key_order_independent:
  assumes "same_content cont cont'" and "keys_unique cont" and "keys_unique cont'"
  shows "compute_hash eid seq prev ts etype role member cont supers emergency
       = compute_hash eid seq prev ts etype role member cont' supers emergency"
proof -
  let ?fields = "\<lambda>c. [(lit ''id'', JStr (str_uuid eid)),
             (lit ''sequence_number'', JInt seq),
             (lit ''previous_hash'', JStr prev),
             (lit ''timestamp'', JStr (isoformat ts)),
             (lit ''entry_type'', JStr etype),
             (lit ''author_role'', JStr role),
             (lit ''author_member_id'', JStr (str_uuid member)),
             (lit ''content'', c),
             (lit ''supersedes'', (case supers of None \<Rightarrow> JNull | Some u \<Rightarrow> JStr (str_uuid u))),
             (lit ''emergency_designation'', JBool emergency)]"
  have "list_all2 (\<lambda>kv kv'. fst kv = fst kv' \<and> same_content (snd kv) (snd kv'))
          (?fields cont) (?fields cont')"
    using assms(1) by (simp add: same_content.same)
  then have "same_content (JDict (?fields cont)) (JDict (?fields cont'))"
    by (rule same_content.dict) simp
  moreover have d: "distinct (map fst (?fields c))" for c
    by (simp add: lit_def)
  have "keys_unique (JDict (?fields c))" if "keys_unique c" for c
    using that d [of c] by (cases supers) simp_all
  with assms(2,3) have "keys_unique (JDict (?fields cont))" "keys_unique (JDict (?fields cont'))"
    by blast+
  ultimately have "dumps (JDict (?fields cont)) = dumps (JDict (?fields cont'))"
    by (rule dumps_same_content)
  then show ?thesis by (simp add: compute_hash_def Let_def)
qed

text \<open>
  Two contents with the keys in opposite orders at both depths.
\<close>

theorem hash_key_order_independent_witness:
  "compute_hash run_entry_id 1 GENESIS_HASH run_time1 (lit ''executive_action'')
     (lit ''operations_executive'') run_system_id order_a None False
   = compute_hash run_entry_id 1 GENESIS_HASH run_time1 (lit ''executive_action'')
     (lit ''operations_executive'') run_system_id order_b None False"
proof -
  let ?inner = "JDict [(lit ''x'', JBool True), (lit ''y'', JList [JNull])]"
  let ?inner' = "JDict [(lit ''y'', JList [JNull]), (lit ''x'', JBool True)]"
  have i: "same_content ?inner ?inner'"
    by (rule same_content.dict [where kvs' = "[(lit ''x'', JBool True), (lit ''y'', JList [JNull])]"])
       (simp_all add: same_content.same)
  have "same_content order_a order_b"
    unfolding order_a_def order_b_def
    by (rule same_content.dict [where kvs' = "[(lit ''a'', JInt 1), (lit ''b'', ?inner')]"])
       (simp_all add: same_content.same i)
  moreover have "keys_unique order_a" and "keys_unique order_b"
    by (simp_all add: order_a_def order_b_def lit_def)
  ultimately show ?thesis by (rule hash_key_order_independent)
qed

text \<open>
  Claim C5, chain linkage. In every store that calls of \<^verbatim>\<open>initialize\<close> and \<^verbatim>\<open>append\<close> have
  produced, no two rows have the same sequence number; read in ascending order, the
  sequence numbers are 0, 1, 2 and so on without a gap; and every row after the first
  carries as \<^verbatim>\<open>previous_hash\<close> the \<^verbatim>\<open>entry_hash\<close> of the row before it.
\<close>

theorem chain_linkage_invariant:
  assumes "reachable rows"
  shows "distinct (map sequence_number rows)
     \<and> map sequence_number (select_asc rows) = map int [0..<length rows]
     \<and> (\<forall>i. 0 < i \<and> i < length rows
          \<longrightarrow> previous_hash (select_asc rows ! i) = entry_hash (select_asc rows ! (i - 1)))"
proof (cases "rows = []")
  case True
  then show ?thesis by (simp add: select_asc_def)
next
  case False
  with assms reachable_chain_inv have c: "chain_inv rows" by blast
  then have m: "map sequence_number rows = map int [0..<length rows]"
    by (simp add: chain_inv_def)
  have "distinct (map int [0..<length rows])"
    by (simp add: distinct_map)
  with m have "distinct (map sequence_number rows)" by simp
  with c m show ?thesis
    by (simp add: chain_inv_select_asc) (simp add: chain_inv_def)
qed

text \<open>
  The recorded run: the sequence numbers 0 and 1, and entry 1 linked to the genesis row.
\<close>

theorem chain_linkage_invariant_witness:
  "distinct (map sequence_number run_store)
   \<and> map sequence_number (select_asc run_store) = [0, 1]
   \<and> previous_hash (select_asc run_store ! 1) = entry_hash (select_asc run_store ! 0)"
proof -
  have l: "length run_store = 2" by (simp add: run_store_def)
  from chain_linkage_invariant [OF run_store_reachable]
  have "distinct (map sequence_number run_store)"
    and "map sequence_number (select_asc run_store) = map int [0..<2]"
    and "previous_hash (select_asc run_store ! 1) = entry_hash (select_asc run_store ! (1 - 1))"
    by (simp_all add: l)
  then show ?thesis by (simp add: upt_rec)
qed

text \<open>
  Claim C6, the checks \<^verbatim>\<open>verify_chain\<close> makes first. It returns \<open>False\<close> with the count 0
  when the table is empty, when the first row in ascending order of sequence number has a
  sequence number other than 0, and when the \<^verbatim>\<open>previous_hash\<close> of that row is not the
  sentinel of 64 zeros.
\<close>

theorem verify_chain_fail_fast:
  assumes "rows = []
     \<or> sequence_number (hd (select_asc rows)) \<noteq> 0
     \<or> previous_hash (hd (select_asc rows)) \<noteq> GENESIS_HASH"
  shows "fst (verify_chain rows) = False \<and> fst (snd (verify_chain rows)) = 0"
proof (cases "select_asc rows")
  case Nil
  then show ?thesis by (simp add: verify_chain_def)
next
  case (Cons first rest)
  then have "rows \<noteq> []" by (auto simp: select_asc_def)
  with assms Cons show ?thesis by (auto simp: verify_chain_def Let_def)
qed

text \<open>
  The empty table, and the genesis row of the run with the sequence number 3, and with a
  \<^verbatim>\<open>previous_hash\<close> of 64 ones.
\<close>

theorem verify_chain_fail_fast_witness:
  "(fst (verify_chain []) = False \<and> fst (snd (verify_chain [])) = 0)
   \<and> (fst (verify_chain [run_genesis\<lparr>sequence_number := 3\<rparr>]) = False
      \<and> fst (snd (verify_chain [run_genesis\<lparr>sequence_number := 3\<rparr>])) = 0)
   \<and> (fst (verify_chain [run_genesis\<lparr>previous_hash := replicate 64 49\<rparr>]) = False
      \<and> fst (snd (verify_chain [run_genesis\<lparr>previous_hash := replicate 64 49\<rparr>])) = 0)"
  using verify_chain_fail_fast [of "[]"]
    verify_chain_fail_fast [of "[run_genesis\<lparr>sequence_number := 3\<rparr>]"]
    verify_chain_fail_fast [of "[run_genesis\<lparr>previous_hash := replicate 64 49\<rparr>]"]
  by (simp add: select_asc_def GENESIS_HASH_def)

text \<open>
  Claim C7, \<^verbatim>\<open>append\<close> before \<^verbatim>\<open>initialize\<close>. \<^verbatim>\<open>append\<close> ends with the error that no
  genesis block was found exactly when the table holds no row; and whenever \<^verbatim>\<open>append\<close>
  ends with an error, the table is as it was.
\<close>

theorem append_no_genesis_iff:
  "(fst (append etype role member cont supers emergency new_id now rows)
      = Inl (LedgerIntegrityError no_genesis_message) \<longleftrightarrow> rows = [])
   \<and> (isl (fst (append etype role member cont supers emergency new_id now rows))
        \<longrightarrow> snd (append etype role member cont supers emergency new_id now rows) = rows)"
proof (cases "last_entry rows")
  case None
  then show ?thesis
    using last_entry_None_iff [of rows] by (simp add: append_def append_with_tip_def)
next
  case (Some tip)
  then have "rows \<noteq> []" using last_entry_None_iff [of rows] by auto
  with Some show ?thesis
    using commit_cases [of "new_entry tip etype role member cont supers emergency new_id now" rows]
    by (auto simp: append_def append_with_tip_def)
qed

text \<open>
  The empty table, where the call fails and writes nothing, and the table with the genesis
  row of the run, where it does not fail that way.
\<close>

theorem append_no_genesis_iff_witness:
  "fst (append (lit ''executive_action'') (lit ''operations_executive'') run_system_id content_alpha
          None False run_entry_id run_time1 []) = Inl (LedgerIntegrityError no_genesis_message)
   \<and> snd (append (lit ''executive_action'') (lit ''operations_executive'') run_system_id content_alpha
          None False run_entry_id run_time1 []) = []
   \<and> fst (append (lit ''executive_action'') (lit ''operations_executive'') run_system_id content_alpha
          None False run_entry_id run_time1 [run_genesis]) \<noteq> Inl (LedgerIntegrityError no_genesis_message)"
  using append_no_genesis_iff [of "lit ''executive_action''" "lit ''operations_executive''"
      run_system_id content_alpha None False run_entry_id run_time1 "[]"]
    append_no_genesis_iff [of "lit ''executive_action''" "lit ''operations_executive''"
      run_system_id content_alpha None False run_entry_id run_time1 "[run_genesis]"]
  by simp

text \<open>
  Claim C8, \<^verbatim>\<open>initialize\<close> is idempotent. When a call of \<^verbatim>\<open>initialize\<close> returns, the table
  is the one it found if that held a row with sequence number 0, and else the one it found
  with the genesis row added; the genesis row has the sequence number 0, the sentinel as
  \<^verbatim>\<open>previous_hash\<close> and the fixed payload as content; any further call returns and leaves
  the table as it is; and the table holds exactly one row with sequence number 0.
\<close>

theorem initialize_idempotent:
  assumes "initialize g s t rows = (Inr (), rows')"
  shows "rows' = (if \<exists>e \<in> set rows. sequence_number e = 0 then rows
                  else rows @ [create_genesis_block g s t])
     \<and> sequence_number (create_genesis_block g s t) = 0
     \<and> previous_hash (create_genesis_block g s t) = GENESIS_HASH
     \<and> content (create_genesis_block g s t) = genesis_content
     \<and> initialize g' s' t' rows' = (Inr (), rows')
     \<and> length (filter (\<lambda>e. sequence_number e = 0) rows') = 1"
proof -
  let ?g = "create_genesis_block g s t"
  let ?zero = "\<lambda>rs. filter (\<lambda>e. sequence_number e = 0) rs"
  have g: "sequence_number ?g = 0" "previous_hash ?g = GENESIS_HASH" "content ?g = genesis_content"
    by (simp_all add: create_genesis_block_def)
  have ex: "(\<exists>e \<in> set rows. sequence_number e = 0) \<longleftrightarrow> ?zero rows \<noteq> []"
    by (simp add: filter_empty_conv)
  have r: "rows' = (if ?zero rows = [] then rows @ [?g] else rows)"
    using assms unfolding initialize_cases [of g s t rows] by (simp split: if_splits)
  have one: "length (?zero rows') = 1"
  proof (cases "?zero rows = []")
    case True
    with r g(1) show ?thesis by simp
  next
    case False
    with assms r show ?thesis
      unfolding initialize_cases [of g s t rows] by (simp split: if_splits)
  qed
  then have "?zero rows' \<noteq> []" by auto
  with one have "initialize g' s' t' rows' = (Inr (), rows')"
    unfolding initialize_cases [of g' s' t' rows'] by simp
  with r ex g one show ?thesis by simp
qed

text \<open>
  The empty table, initialised twice.
\<close>

theorem initialize_idempotent_witness:
  "initialize run_genesis_id run_system_id run_time0 [] = (Inr (), [run_genesis])
   \<and> sequence_number run_genesis = 0
   \<and> previous_hash run_genesis = GENESIS_HASH
   \<and> content run_genesis = genesis_content
   \<and> initialize run_entry_id run_system_id run_time1 [run_genesis] = (Inr (), [run_genesis])
   \<and> length (filter (\<lambda>e. sequence_number e = 0) [run_genesis]) = 1"
  using initialize_idempotent [OF run_initialize, of run_entry_id run_system_id run_time1]
  by (simp add: run_initialize run_genesis_def)

text \<open>
  Claim C9, concurrent appends, as amended. \<^verbatim>\<open>append\<close> takes no lock and has no retry.
  When two calls have read the same tip and the first has committed its row, the row of the
  second has the sequence number of the first; the unique constraint on
  \<^verbatim>\<open>sequence_number\<close> refuses it, the second call ends with the \<^verbatim>\<open>IntegrityError\<close> of the
  database, and the table holds the row of the first call only. So the two calls never both
  succeed with one sequence number and never leave a fork; the call that lost the race is
  not tried again.
\<close>

theorem racing_append_rejected:
  assumes "last_entry rows = Some tip"
    and "append_with_tip (last_entry rows) etype role member cont supers emergency new_id now rows
           = (Inr e, rows1)"
  shows "sequence_number e = sequence_number tip + 1
     \<and> rows1 = rows @ [e]
     \<and> append_with_tip (last_entry rows) etype' role' member' cont' supers' emergency' new_id' now' rows1
         = (Inl IntegrityError, rows1)"
proof -
  from assms have e: "e = new_entry tip etype role member cont supers emergency new_id now"
    and r: "rows1 = rows @ [e]"
    by (auto simp: append_with_tip_def dest: commit_InrD)
  then have s: "sequence_number e = sequence_number tip + 1"
    by (simp add: new_entry_def Let_def)
  let ?e' = "new_entry tip etype' role' member' cont' supers' emergency' new_id' now'"
  have "sequence_number ?e' = sequence_number e"
    using s by (simp add: new_entry_def Let_def)
  with r have "\<not> constraints_hold ?e' rows1"
    by (simp add: constraints_hold_def)
  with assms(1) s r show ?thesis
    by (simp add: append_with_tip_def commit_def)
qed

text \<open>
  The recorded run, with a second call that read the genesis row as its tip as well.
\<close>

theorem racing_append_rejected_witness:
  "sequence_number run_entry = sequence_number run_genesis + 1
   \<and> run_store = [run_genesis] @ [run_entry]
   \<and> append_with_tip (last_entry [run_genesis]) (lit ''executive_action'')
        (lit ''operations_executive'') run_system_id content_beta None False run_rival_id run_time2
        run_store
      = (Inl IntegrityError, run_store)"
proof -
  have "append_with_tip (last_entry [run_genesis]) (lit ''executive_action'')
          (lit ''operations_executive'') run_system_id content_alpha None False run_entry_id
          run_time1 [run_genesis] = (Inr run_entry, run_store)"
    using run_append by (simp add: append_def)
  from racing_append_rejected [OF run_last_entry this] show ?thesis .
qed

text \<open>
  As the claim states it, it fails on the recorded run: the call that lost the race returns
  the error, where a retry on the new tip would have returned an entry with sequence
  number 2.
\<close>

theorem racing_append_counterexample:
  "append (lit ''executive_action'') (lit ''operations_executive'') run_system_id content_alpha
     None False run_entry_id run_time1 [run_genesis] = (Inr run_entry, run_store)
   \<and> append_with_tip (last_entry [run_genesis]) (lit ''executive_action'')
        (lit ''operations_executive'') run_system_id content_beta None False run_rival_id run_time2
        run_store
      = (Inl IntegrityError, run_store)"
proof -
  let ?rival = "new_entry run_genesis (lit ''executive_action'') (lit ''operations_executive'')
      run_system_id content_beta None False run_rival_id run_time2"
  have "sequence_number ?rival = 1"
    by (simp add: new_entry_def Let_def run_genesis_fields)
  then have "\<not> constraints_hold ?rival run_store"
    by (simp add: constraints_hold_def run_store_def run_entry_fields)
  then show ?thesis
    by (simp add: run_append append_with_tip_def run_last_entry commit_def)
qed

text \<open>
  Claim C10, the audit tool on an empty ledger. \<^verbatim>\<open>run_audit\<close> returns \<open>True\<close> on the empty
  table, whatever \<^verbatim>\<open>verbose\<close> is, while \<^verbatim>\<open>verify_chain\<close> on the same table returns
  \<open>False\<close>, the count 0 and the message that no entries were found.
\<close>

theorem audit_empty_disagrees:
  "run_audit [] verbose = True
   \<and> verify_chain [] = (False, 0, no_entries_message)"
  by (simp add: run_audit_def get_entry_count_def verify_chain_def select_asc_def)

end
